theory Spec2Isabelle
  imports Main "HOL-Library.Word" "HOL-Library.Multiset" "HOL-Library.Monad_Syntax"
begin

unbundle bit_operations_syntax

section \<open>The ABX client: data\<close>

text \<open>
  A shallow embedding of \<^verbatim>\<open>abx_client.cpp\<close>. A \<^verbatim>\<open>char\<close> is a byte, a
  \<^verbatim>\<open>uint32_t\<close> a 32-bit word whose order is the unsigned one.
\<close>

type_synonym byte = "8 word"
type_synonym u32 = "32 word"

text \<open>
  \<^verbatim>\<open>struct Packet\<close>. The field \<^verbatim>\<open>side\<close> is an \<^verbatim>\<open>enum class Side : char\<close>: its
  values are all the values of a \<^verbatim>\<open>char\<close>, of which two have a name, so the model keeps the
  byte. \<^verbatim>\<open>symbol\<close> is a \<^verbatim>\<open>std::array<char, 4>\<close>, here the list of its four bytes.
\<close>

record Packet =
  symbol :: "byte list"
  side :: byte
  quantity :: u32
  price :: u32
  sequence :: u32

definition Buy :: byte where
  "Buy = 66"

definition Sell :: byte where
  "Sell = 83"

section \<open>Wire codec\<close>

text \<open>
  \<^verbatim>\<open>data[i]\<close> on a \<^verbatim>\<open>std::vector<char>\<close>: \<open>None\<close> stands for an index past the
  end, where C++ gives the read no meaning.
\<close>

definition byte_at :: "byte list \<Rightarrow> nat \<Rightarrow> byte option" where
  "byte_at data i = (if i < length data then Some (data ! i) else None)"

text \<open>
  \<^verbatim>\<open>readInt32\<close>: each byte is read as an \<^verbatim>\<open>unsigned char\<close>, shifted and or-ed; the
  result is converted to \<^verbatim>\<open>uint32_t\<close>.
\<close>

definition readInt32 :: "byte list \<Rightarrow> nat \<Rightarrow> u32 option" where
  "readInt32 data offset =
     do {
       b0 \<leftarrow> byte_at data offset;
       b1 \<leftarrow> byte_at data (offset + 1);
       b2 \<leftarrow> byte_at data (offset + 2);
       b3 \<leftarrow> byte_at data (offset + 3);
       Some (push_bit 24 (ucast b0) OR push_bit 16 (ucast b1) OR push_bit 8 (ucast b2) OR ucast b3)
     }"

text \<open>
  \<^verbatim>\<open>parsePacket\<close>: \<^verbatim>\<open>copy_n\<close> of four bytes, the cast of \<^verbatim>\<open>data[4]\<close> to the
  enumeration, three calls of \<^verbatim>\<open>readInt32\<close>. The source checks neither the length of
  \<^verbatim>\<open>data\<close> nor the side byte.
\<close>

definition parsePacket :: "byte list \<Rightarrow> Packet option" where
  "parsePacket data =
     (if length data < 4 then None
      else do {
        s \<leftarrow> byte_at data 4;
        q \<leftarrow> readInt32 data 5;
        p \<leftarrow> readInt32 data 9;
        n \<leftarrow> readInt32 data 13;
        Some \<lparr>symbol = take 4 data, side = s, quantity = q, price = p, sequence = n\<rparr>
      })"

text \<open>
  \<^verbatim>\<open>sendRequest\<close>: the two bytes written to the socket. Both parameters are
  \<^verbatim>\<open>uint8_t\<close>; a caller that passes a \<^verbatim>\<open>uint32_t\<close> has it converted, which keeps the
  low eight bits (\<open>ucast\<close>).
\<close>

definition sendRequest :: "byte \<Rightarrow> byte \<Rightarrow> byte list" where
  "sendRequest callType seq = [callType, seq]"

section \<open>Channel\<close>

text \<open>
  What one call of \<^verbatim>\<open>read_some\<close> on a socket can do: transfer some bytes into the
  17-byte buffer, report that the peer closed the connection, or report another error. A
  channel is the list of what its successive reads do; on a channel with nothing left the
  read does not return.
\<close>

datatype recv_event = Bytes "byte list" | Eof | Failure

text \<open>
  How a run can stop without reaching its end: an exception that reaches \<^verbatim>\<open>main\<close>, a
  read past the end of a vector, or a call that never returns.
\<close>

datatype failure = Exception | OutOfBounds | Blocked

text \<open>
  \<^verbatim>\<open>receiveResponse\<close>: the buffer as resized to the number of bytes read, empty on
  end of file; any other error is thrown. The rest of the channel is returned with it.
\<close>

fun receiveResponse :: "recv_event list \<Rightarrow> failure + (byte list \<times> recv_event list)" where
  "receiveResponse [] = Inl Blocked"
| "receiveResponse (Eof # rest) = Inr ([], rest)"
| "receiveResponse (Failure # rest) = Inl Exception"
| "receiveResponse (Bytes bs # rest) = Inr (take 17 bs, rest)"

section \<open>The run\<close>

text \<open>
  The calls a run makes on the transport, and the packets it parses (the line that
  \<^verbatim>\<open>parsePacket\<close> logs), in the order they happen.
\<close>

datatype event = Connect | Write "byte list" | ReadSome | Parsed Packet

text \<open>
  The local variables \<^verbatim>\<open>packets\<close> and \<^verbatim>\<open>receivedSequences\<close> of
  \<^verbatim>\<open>fetchAndSaveData\<close>, and the trace so far.
\<close>

record client =
  packets :: "Packet list"
  receivedSequences :: "u32 set"
  trace :: "event list"

text \<open>The \<^verbatim>\<open>while (true)\<close> loop over the primary connection.\<close>

function streamLoop :: "recv_event list \<Rightarrow> client \<Rightarrow> failure option \<times> client" where
  "streamLoop ch c =
     (case receiveResponse ch of
        Inl f \<Rightarrow> (Some f, c\<lparr>trace := trace c @ [ReadSome]\<rparr>)
      | Inr (data, ch') \<Rightarrow>
          if data = [] then (None, c\<lparr>trace := trace c @ [ReadSome]\<rparr>)
          else
            (case parsePacket data of
               None \<Rightarrow> (Some OutOfBounds, c\<lparr>trace := trace c @ [ReadSome]\<rparr>)
             | Some p \<Rightarrow>
                 streamLoop ch'
                   (c\<lparr>packets := packets c @ [p],
                      receivedSequences := insert (sequence p) (receivedSequences c),
                      trace := trace c @ [ReadSome, Parsed p]\<rparr>)))"
  by pat_completeness auto
termination
proof (relation "measure (\<lambda>(ch, c). length ch)")
  show "wf (measure (\<lambda>(ch, c). length ch))"
    by simp
next
  fix ch :: "recv_event list" and c :: client and x data ch' p
  assume "receiveResponse ch = Inr x" and "(data, ch') = x"
  then have "receiveResponse ch = Inr (data, ch')"
    by simp
  then have "length ch' < length ch"
    by (cases ch rule: receiveResponse.cases) auto
  then show "((ch', c\<lparr>packets := packets c @ [p],
                receivedSequences := insert (sequence p) (receivedSequences c),
                trace := trace c @ [ReadSome, Parsed p]\<rparr>), ch, c)
             \<in> measure (\<lambda>(ch, c). length ch)"
    by simp
qed

text \<open>
  A \<^verbatim>\<open>std::set<uint32_t>\<close> that is iterated: the list of its elements in ascending
  order, without repetition.
\<close>

definition set_insert :: "u32 \<Rightarrow> u32 list \<Rightarrow> u32 list" where
  "set_insert x xs = (if x \<in> set xs then xs else insort x xs)"

text \<open>
  The loop \<^verbatim>\<open>for (uint32_t i = 1; i < lastSeq; ++i)\<close> that fills
  \<^verbatim>\<open>missingSequences\<close>, from the value \<open>i\<close> on.
\<close>

function detectMissing :: "u32 \<Rightarrow> u32 \<Rightarrow> u32 set \<Rightarrow> u32 list \<Rightarrow> u32 list" where
  "detectMissing i lastSeq received missing =
     (if i < lastSeq
      then detectMissing (i + 1) lastSeq received
             (if i \<notin> received then set_insert i missing else missing)
      else missing)"
  by pat_completeness auto
termination
proof (relation "measure (\<lambda>(i, lastSeq, received, missing). unat lastSeq - unat i)")
  show "wf (measure (\<lambda>(i, lastSeq, received, missing). unat lastSeq - unat i))"
    by simp
next
  fix i lastSeq :: u32 and received :: "u32 set" and missing :: "u32 list"
  assume "i < lastSeq"
  then have less: "unat i < unat lastSeq"
    by (simp add: word_less_nat_alt)
  moreover have "unat lastSeq < 2 ^ 32"
    using unsigned_less [of lastSeq, where ?'a = nat] by simp
  ultimately have "unat i + unat (1 :: u32) < 2 ^ LENGTH(32)"
    by simp
  then have "unat (i + 1) = unat i + unat (1 :: u32)"
    by (simp only: unat_add_lem)
  with less have "unat lastSeq - unat (i + 1) < unat lastSeq - unat i"
    by simp
  then show "((i + 1, lastSeq, received,
               if i \<notin> received then set_insert i missing else missing),
              i, lastSeq, received, missing)
             \<in> measure (\<lambda>(i, lastSeq, received, missing). unat lastSeq - unat i)"
    by simp
qed

text \<open>
  The loop over \<^verbatim>\<open>missingSequences\<close>. Each round connects a fresh socket, sends the
  request (the \<^verbatim>\<open>uint32_t\<close> is converted to the \<^verbatim>\<open>uint8_t\<close> parameter) and calls
  \<^verbatim>\<open>receiveResponse\<close> once. \<open>srv seq\<close> is the channel that the connection made for
  \<open>seq\<close> gets. The round changes \<^verbatim>\<open>packets\<close> only.
\<close>

fun recoverLoop :: "(u32 \<Rightarrow> recv_event list) \<Rightarrow> u32 list \<Rightarrow> client \<Rightarrow> failure option \<times> client" where
  "recoverLoop srv [] c = (None, c)"
| "recoverLoop srv (seq # rest) c =
     (case receiveResponse (srv seq) of
        Inl f \<Rightarrow>
          (Some f, c\<lparr>trace := trace c @ [Connect, Write (sendRequest 2 (ucast seq)), ReadSome]\<rparr>)
      | Inr (data, ch') \<Rightarrow>
          if data \<noteq> [] then
            (case parsePacket data of
               None \<Rightarrow>
                 (Some OutOfBounds,
                  c\<lparr>trace := trace c @ [Connect, Write (sendRequest 2 (ucast seq)), ReadSome]\<rparr>)
             | Some p \<Rightarrow>
                 recoverLoop srv rest
                   (c\<lparr>packets := packets c @ [p],
                      trace := trace c @
                        [Connect, Write (sendRequest 2 (ucast seq)), ReadSome, Parsed p]\<rparr>))
          else
            recoverLoop srv rest
              (c\<lparr>trace := trace c @ [Connect, Write (sendRequest 2 (ucast seq)), ReadSome]\<rparr>))"

text \<open>
  The server as the client meets it: the channel of the first connection, and the channel
  of the connection made for each missing sequence number.
\<close>

record server =
  primary :: "recv_event list"
  recovery :: "u32 \<Rightarrow> recv_event list"

text \<open>
  How \<^verbatim>\<open>fetchAndSaveData\<close> ends: \<^verbatim>\<open>output.json\<close> written with these packets in this
  order; the early return after the line \<^verbatim>\<open>No packets received.\<close>; or a stop before
  either.
\<close>

datatype outcome = Saved "Packet list" | NoPacketsReceived | Stopped failure

text \<open>
  The state once the first connection is made and the request to stream all packets is
  sent: both containers empty.
\<close>

definition connected :: client where
  "connected = \<lparr>packets = [], receivedSequences = {}, trace = [Connect, Write (sendRequest 1 0)]\<rparr>"

text \<open>
  \<^verbatim>\<open>uint32_t lastSeq = packets.back().sequence\<close>, which the source reaches only with
  \<^verbatim>\<open>packets\<close> not empty.
\<close>

definition lastSeq :: "client \<Rightarrow> u32" where
  "lastSeq c = sequence (last (packets c))"

text \<open>
  The comparison that the source gives to \<^verbatim>\<open>std::sort\<close>, the lambda
  \<^verbatim>\<open>[](const Packet& a, const Packet& b) { return a.sequence < b.sequence; }\<close>.
\<close>

definition sequence_less :: "Packet \<Rightarrow> Packet \<Rightarrow> bool" where
  "sequence_less a b \<longleftrightarrow> sequence a < sequence b"

text \<open>
  \<^verbatim>\<open>fetchAndSaveData\<close>. The library function \<^verbatim>\<open>std::sort\<close> is the parameter
  \<open>std_sort\<close>, called with the comparison above and the list of packets: the library
  promises a permutation ordered by the comparison it is given, and nothing on the order of
  elements that compare equal (\<open>sorts_by_sequence\<close> below). Connecting and writing are
  taken to succeed; the writing of the file is its list of packets.
\<close>

definition fetchAndSaveData ::
  "((Packet \<Rightarrow> Packet \<Rightarrow> bool) \<Rightarrow> Packet list \<Rightarrow> Packet list) \<Rightarrow> server \<Rightarrow> outcome \<times> client" where
  "fetchAndSaveData std_sort srv =
     (case streamLoop (primary srv) connected of
        (Some f, c) \<Rightarrow> (Stopped f, c)
      | (None, c) \<Rightarrow>
          if packets c = [] then (NoPacketsReceived, c)
          else
            (case recoverLoop (recovery srv)
                    (detectMissing 1 (lastSeq c) (receivedSequences c) []) c of
               (Some f, c') \<Rightarrow> (Stopped f, c')
             | (None, c') \<Rightarrow>
                 (Saved (std_sort sequence_less (packets c')),
                  c'\<lparr>packets := std_sort sequence_less (packets c')\<rparr>)))"

text \<open>
  What \<^verbatim>\<open>std::sort\<close> promises for this comparison: the result is a permutation of
  the list, and no element compares less than one that stands before it.
\<close>

definition sorts_by_sequence ::
  "((Packet \<Rightarrow> Packet \<Rightarrow> bool) \<Rightarrow> Packet list \<Rightarrow> Packet list) \<Rightarrow> bool" where
  "sorts_by_sequence std_sort \<longleftrightarrow>
     (\<forall>ps. mset (std_sort sequence_less ps) = mset ps
        \<and> sorted_wrt (\<lambda>a b. \<not> sequence_less b a) (std_sort sequence_less ps))"

section \<open>Vocabulary of the statements\<close>

text \<open>The four bytes of a 32-bit value, most significant first.\<close>

definition big_endian :: "u32 \<Rightarrow> byte list" where
  "big_endian w = [ucast (drop_bit 24 w), ucast (drop_bit 16 w), ucast (drop_bit 8 w), ucast w]"

text \<open>The packets a trace reports as parsed, in order.\<close>

fun parsed_packets :: "event list \<Rightarrow> Packet list" where
  "parsed_packets [] = []"
| "parsed_packets (Parsed p # t) = p # parsed_packets t"
| "parsed_packets (e # t) = parsed_packets t"

text \<open>The number of connections a trace reports.\<close>

definition connections :: "event list \<Rightarrow> nat" where
  "connections t = length (filter (\<lambda>e. e = Connect) t)"

text \<open>
  The record that one receive on a channel delivers, when it delivers a whole frame.
\<close>

definition response_record :: "recv_event list \<Rightarrow> Packet option" where
  "response_record ch =
     (case receiveResponse ch of Inl f \<Rightarrow> None | Inr (data, ch') \<Rightarrow> parsePacket data)"

text \<open>
  The receive on a channel returns, with nothing or with a whole frame of 17 bytes.
\<close>

definition answers :: "recv_event list \<Rightarrow> bool" where
  "answers ch =
     (case receiveResponse ch of Inl f \<Rightarrow> False | Inr (data, ch') \<Rightarrow> data = [] \<or> length data = 17)"

text \<open>
  Frames and records for the examples: symbol \<open>ABCD\<close>, quantity 10, price 100, and the
  given side and sequence number.
\<close>

definition example_frame :: "byte \<Rightarrow> byte \<Rightarrow> byte list" where
  "example_frame sd n = [65, 66, 67, 68, sd, 0, 0, 0, 10, 0, 0, 0, 100, 0, 0, 0, n]"

definition example_packet :: "byte \<Rightarrow> byte \<Rightarrow> Packet" where
  "example_packet sd n =
     \<lparr>symbol = [65, 66, 67, 68], side = sd, quantity = 10, price = 100, sequence = ucast n\<rparr>"

text \<open>
  A sort for the examples: insertion, from the last element to the first, by the comparison
  it is given.
\<close>

fun insert_by :: "('a \<Rightarrow> 'a \<Rightarrow> bool) \<Rightarrow> 'a \<Rightarrow> 'a list \<Rightarrow> 'a list" where
  "insert_by lt x [] = [x]"
| "insert_by lt x (y # ys) = (if lt y x then y # insert_by lt x ys else x # y # ys)"

definition insertion_sort :: "('a \<Rightarrow> 'a \<Rightarrow> bool) \<Rightarrow> 'a list \<Rightarrow> 'a list" where
  "insertion_sort lt xs = foldr (insert_by lt) xs []"

text \<open>
  Servers for the examples. The first streams the sequence numbers 1, 2, 4, 5 and answers
  the request for 3; the second streams 1, 4, fails the receive of the request for 2 and
  would answer the one for 3; the third streams 1, 1, 2; the fourth closes at once; the
  fifth streams 1, 5, 3 and answers no request.
\<close>

definition server_gap :: server where
  "server_gap =
     \<lparr>primary = [Bytes (example_frame Buy 1), Bytes (example_frame Sell 2),
                  Bytes (example_frame Buy 4), Bytes (example_frame Sell 5), Eof],
      recovery = (\<lambda>s. [Bytes (example_frame Buy 3)])\<rparr>"

definition server_error :: server where
  "server_error =
     \<lparr>primary = [Bytes (example_frame Buy 1), Bytes (example_frame Sell 4), Eof],
      recovery = (\<lambda>s. if s = 2 then [Failure] else [Bytes (example_frame Buy 3)])\<rparr>"

definition server_duplicates :: server where
  "server_duplicates =
     \<lparr>primary = [Bytes (example_frame Buy 1), Bytes (example_frame Sell 1),
                  Bytes (example_frame Buy 2), Eof],
      recovery = (\<lambda>s. [Eof])\<rparr>"

definition server_empty :: server where
  "server_empty = \<lparr>primary = [Eof], recovery = (\<lambda>s. [Eof])\<rparr>"

definition server_reordered :: server where
  "server_reordered =
     \<lparr>primary = [Bytes (example_frame Buy 1), Bytes (example_frame Sell 5),
                  Bytes (example_frame Buy 3), Eof],
      recovery = (\<lambda>s. [Eof])\<rparr>"

declare streamLoop.simps [simp del]
declare detectMissing.simps [simp del]

section \<open>Lemmas on the codec\<close>

lemma byte_lt: "unat (b::byte) < 256"
  using unsigned_less [of b, where ?'a = nat] by simp

lemma unat_ucast_byte: "unat (ucast (b::byte) :: u32) = unat b"
  using byte_lt [of b] by (simp add: unsigned_ucast_eq take_bit_nat_eq_self)

lemma unat_shifted:
  assumes "n \<le> 24"
  shows "unat (push_bit n (ucast (b::byte) :: u32)) = unat b * 2 ^ n"
proof -
  have "unat b * 2 ^ n < 2 ^ 8 * 2 ^ n"
    using byte_lt [of b] by simp
  also have "\<dots> = (2::nat) ^ (8 + n)" by (simp add: power_add)
  also have "\<dots> \<le> 2 ^ 32" using assms by (intro power_increasing) simp_all
  finally have "unat b * 2 ^ n < 2 ^ 32" .
  then have "take_bit 32 (unat b * 2 ^ n) = unat b * 2 ^ n"
    by (simp add: take_bit_nat_eq_self)
  then show ?thesis
    unfolding unsigned_push_bit_eq unat_ucast_byte by (simp add: push_bit_eq_mult)
qed

lemma or_bytes_eq_add:
  "push_bit 24 (ucast b0) OR push_bit 16 (ucast b1) OR push_bit 8 (ucast b2) OR ucast b3
   = push_bit 24 (ucast (b0::byte) :: u32) + (push_bit 16 (ucast (b1::byte))
       + (push_bit 8 (ucast (b2::byte)) + ucast (b3::byte)))"
proof -
  have 1: "push_bit 8 (ucast b2 :: u32) + ucast b3 = push_bit 8 (ucast b2) OR ucast b3"
    by (rule disjunctive_add) (auto simp: bit_simps dest: bit_imp_le_length)
  have 2: "push_bit 16 (ucast b1 :: u32) + (push_bit 8 (ucast b2) OR ucast b3)
      = push_bit 16 (ucast b1) OR push_bit 8 (ucast b2) OR ucast b3"
    by (rule disjunctive_add) (auto simp: bit_simps dest: bit_imp_le_length)
  have 3: "push_bit 24 (ucast b0 :: u32) + (push_bit 16 (ucast b1) OR push_bit 8 (ucast b2) OR ucast b3)
      = push_bit 24 (ucast b0) OR push_bit 16 (ucast b1) OR push_bit 8 (ucast b2) OR ucast b3"
    by (rule disjunctive_add) (auto simp: bit_simps dest: bit_imp_le_length)
  show ?thesis by (simp only: 1 2 3)
qed

lemma unat_plus_u32: "unat x + unat y < 2 ^ 32 \<Longrightarrow> unat (x + y :: u32) = unat x + unat y"
  using unat_add_lem [of x y] by simp

lemma unat_or_bytes:
  "unat (push_bit 24 (ucast (b0::byte)) OR push_bit 16 (ucast (b1::byte))
         OR push_bit 8 (ucast (b2::byte)) OR (ucast (b3::byte) :: u32))
   = unat b0 * 2 ^ 24 + unat b1 * 2 ^ 16 + unat b2 * 2 ^ 8 + unat b3"
proof -
  note b = byte_lt [of b0] byte_lt [of b1] byte_lt [of b2] byte_lt [of b3]
  have s: "unat (push_bit 24 (ucast b0 :: u32)) = unat b0 * 2 ^ 24"
    "unat (push_bit 16 (ucast b1 :: u32)) = unat b1 * 2 ^ 16"
    "unat (push_bit 8 (ucast b2 :: u32)) = unat b2 * 2 ^ 8"
    by (simp_all only: unat_shifted)
  have 1: "unat (push_bit 8 (ucast b2 :: u32) + ucast b3) = unat b2 * 2 ^ 8 + unat b3"
    using b by (subst unat_plus_u32) (simp_all only: s unat_ucast_byte, simp_all)
  have 2: "unat (push_bit 16 (ucast b1 :: u32) + (push_bit 8 (ucast b2) + ucast b3))
      = unat b1 * 2 ^ 16 + (unat b2 * 2 ^ 8 + unat b3)"
    using b by (subst unat_plus_u32) (simp_all only: s 1, simp_all)
  have 3: "unat (push_bit 24 (ucast b0 :: u32) + (push_bit 16 (ucast b1) + (push_bit 8 (ucast b2) + ucast b3)))
      = unat b0 * 2 ^ 24 + (unat b1 * 2 ^ 16 + (unat b2 * 2 ^ 8 + unat b3))"
    using b by (subst unat_plus_u32) (simp_all only: s 2, simp_all)
  show ?thesis by (simp only: or_bytes_eq_add 3 add.assoc)
qed

lemma big_endian_or_bytes:
  "big_endian (push_bit 24 (ucast (b0::byte)) OR push_bit 16 (ucast (b1::byte))
         OR push_bit 8 (ucast (b2::byte)) OR ucast (b3::byte)) = [b0, b1, b2, b3]"
proof -
  let ?w = "push_bit 24 (ucast b0) OR push_bit 16 (ucast b1) OR push_bit 8 (ucast b2) OR ucast b3 :: u32"
  have "ucast (drop_bit 24 ?w) = b0"
    by (rule bit_word_eqI) (auto simp: bit_simps dest: bit_imp_le_length)
  moreover have "ucast (drop_bit 16 ?w) = b1"
    by (rule bit_word_eqI) (auto simp: bit_simps dest: bit_imp_le_length)
  moreover have "ucast (drop_bit 8 ?w) = b2"
    by (rule bit_word_eqI) (auto simp: bit_simps dest: bit_imp_le_length)
  moreover have "ucast ?w = b3"
    by (rule bit_word_eqI) (auto simp: bit_simps dest: bit_imp_le_length)
  ultimately show ?thesis
    by (simp only: big_endian_def)
qed

lemma readInt32_in_range:
  "offset + 3 < length data \<Longrightarrow>
   readInt32 data offset =
     Some (push_bit 24 (ucast (data ! offset)) OR push_bit 16 (ucast (data ! (offset + 1)))
           OR push_bit 8 (ucast (data ! (offset + 2))) OR ucast (data ! (offset + 3)))"
  by (simp add: readInt32_def byte_at_def)

lemma parsePacket_17:
  "length data = 17 \<Longrightarrow>
   parsePacket data = Some \<lparr>symbol = take 4 data, side = data ! 4,
     quantity = push_bit 24 (ucast (data ! 5)) OR push_bit 16 (ucast (data ! 6))
           OR push_bit 8 (ucast (data ! 7)) OR ucast (data ! 8),
     price = push_bit 24 (ucast (data ! 9)) OR push_bit 16 (ucast (data ! 10))
           OR push_bit 8 (ucast (data ! 11)) OR ucast (data ! 12), 
     sequence = push_bit 24 (ucast (data ! 13)) OR push_bit 16 (ucast (data ! 14))
           OR push_bit 8 (ucast (data ! 15)) OR ucast (data ! 16)\<rparr>"
  by (simp add: parsePacket_def readInt32_in_range byte_at_def)

lemma list17:
  assumes "length (data :: 'a list) = 17"
  shows "data = take 4 data @ [data ! 4] @ [data ! 5, data ! 6, data ! 7, data ! 8]
     @ [data ! 9, data ! 10, data ! 11, data ! 12] @ [data ! 13, data ! 14, data ! 15, data ! 16]"
proof -
  from assms obtain d0 d1 d2 d3 d4 d5 d6 d7 d8 d9 d10 d11 d12 d13 d14 d15 d16
    where "data = [d0, d1, d2, d3, d4, d5, d6, d7, d8, d9, d10, d11, d12, d13, d14, d15, d16]"
    by (auto simp: eval_nat_numeral length_Suc_conv)
  then show ?thesis by simp
qed

lemma parsePacket_Nil: "parsePacket [] = None"
  by (simp add: parsePacket_def)

lemma example_frame_parses: "parsePacket (example_frame sd n) = Some (example_packet sd n)"
  by (simp add: parsePacket_def readInt32_def byte_at_def example_frame_def example_packet_def)

lemma receive_example:
  "receiveResponse (Bytes (example_frame sd n) # ch) = Inr (example_frame sd n, ch)"
  by (simp add: example_frame_def)

section \<open>Lemmas on the detection of gaps\<close>

lemma set_set_insert: "set (set_insert x xs) = insert x (set xs)"
  by (auto simp: set_insert_def set_insort_key)

lemma sorted_set_insert: "sorted xs \<Longrightarrow> sorted (set_insert x xs)"
  by (simp add: set_insert_def sorted_insort)

lemma distinct_set_insert: "distinct xs \<Longrightarrow> distinct (set_insert x xs)"
  by (simp add: set_insert_def distinct_insort)

lemma succ_le_iff: "i < (m::u32) \<Longrightarrow> i + 1 \<le> j \<longleftrightarrow> i < j"
proof -
  assume "i < m"
  then have "i \<noteq> - 1"
    by (metis word_order.extremum_strict)
  then show ?thesis
    by (simp add: inc_less_eq_iff)
qed

lemma set_detectMissing:
  "set (detectMissing i m S acc) = set acc \<union> {j. i \<le> j \<and> j < m \<and> j \<notin> S}"
proof (induction i m S acc rule: detectMissing.induct)
  case (1 i m S acc)
  show ?case
  proof (cases "i < m")
    case True
    have split: "{j. i \<le> j \<and> j < m \<and> j \<notin> S}
        = (if i \<notin> S then {i} else {}) \<union> {j. i + 1 \<le> j \<and> j < m \<and> j \<notin> S}"
      using True by (auto simp: succ_le_iff [OF True] less_le)
    show ?thesis
      using True "1.IH" [OF True]
      by (subst detectMissing.simps) (auto simp: split set_set_insert)
  next
    case False
    then have none: "{j. i \<le> j \<and> j < m \<and> j \<notin> S} = {}"
      by auto
    show ?thesis
      by (subst detectMissing.simps) (simp only: none False if_False Un_empty_right)
  qed
qed

lemma sorted_distinct_detectMissing:
  "sorted acc \<and> distinct acc \<Longrightarrow>
   sorted (detectMissing i m S acc) \<and> distinct (detectMissing i m S acc)"
proof (induction i m S acc rule: detectMissing.induct)
  case (1 i m S acc)
  show ?case
  proof (cases "i < m")
    case True
    have "sorted (if i \<notin> S then set_insert i acc else acc)
        \<and> distinct (if i \<notin> S then set_insert i acc else acc)"
      using "1.prems" by (simp add: sorted_set_insert distinct_set_insert)
    from "1.IH" [OF True this] True show ?thesis
      by (subst (1 2) detectMissing.simps) simp
  next
    case False
    with "1.prems" show ?thesis
      by (subst (1 2) detectMissing.simps) simp
  qed
qed

lemma ucast_low_byte: "(ucast (seq :: u32) :: byte) = word_of_nat (unat seq mod 256)"
  by (simp add: word_unat_eq_iff unsigned_ucast_eq unat_of_nat take_bit_eq_mod)

lemma u32_le_3: "(i::u32) \<le> 3 \<Longrightarrow> i = 0 \<or> i = 1 \<or> i = 2 \<or> i = 3"
proof -
  assume "i \<le> 3"
  then have "unat i \<le> 3" by (simp add: word_le_nat_alt)
  then have "unat i = 0 \<or> unat i = 1 \<or> unat i = 2 \<or> unat i = 3" by arith
  then show ?thesis by (simp add: word_unat_eq_iff)
qed

section \<open>Lemmas on the two loops\<close>

lemma parsed_packets_append: "parsed_packets (t @ u) = parsed_packets t @ parsed_packets u"
  by (induction t rule: parsed_packets.induct) simp_all

lemma connections_append: "connections (t @ u) = connections t + connections u"
  by (simp add: connections_def)

lemma recoverLoop_answers:
  "\<forall>s\<in>set ms. answers (srv s) \<Longrightarrow>
   recoverLoop srv ms c =
     (None, c\<lparr>packets := packets c @ List.map_filter (\<lambda>s. response_record (srv s)) ms,
              trace := trace c @ concat (map (\<lambda>s. [Connect, Write [2, ucast s], ReadSome]
                 @ (case response_record (srv s) of None \<Rightarrow> [] | Some p \<Rightarrow> [Parsed p])) ms)\<rparr>)"
proof (induction ms arbitrary: c)
  case Nil
  show ?case by (simp add: List.map_filter_simps)
next
  case (Cons s ms)
  from Cons.prems have rest: "\<forall>x\<in>set ms. answers (srv x)" and here: "answers (srv s)"
    by simp_all
  from here obtain data ch' where r: "receiveResponse (srv s) = Inr (data, ch')"
    and d: "data = [] \<or> length data = 17"
    by (auto simp: answers_def split: sum.splits)
  show ?case
  proof (cases "data = []")
    case True
    with r have "response_record (srv s) = None"
      by (simp add: response_record_def parsePacket_Nil)
    with r True show ?thesis
      by (simp add: Cons.IH [OF rest] List.map_filter_simps sendRequest_def)
  next
    case False
    with d have "length data = 17" by simp
    then obtain p where p: "parsePacket data = Some p"
      using parsePacket_17 by blast
    with r have "response_record (srv s) = Some p"
      by (simp add: response_record_def)
    with r False p show ?thesis
      by (simp add: Cons.IH [OF rest] List.map_filter_simps sendRequest_def)
  qed
qed

lemma recoverLoop_stops:
  "\<forall>s\<in>set before. answers (srv s) \<Longrightarrow> receiveResponse (srv s) = Inl f \<Longrightarrow>
   recoverLoop srv (before @ s # after) c =
     (Some f, c\<lparr>packets := packets c @ List.map_filter (\<lambda>s. response_record (srv s)) before,
              trace := trace c @ concat (map (\<lambda>s. [Connect, Write [2, ucast s], ReadSome]
                 @ (case response_record (srv s) of None \<Rightarrow> [] | Some p \<Rightarrow> [Parsed p])) before)
                 @ [Connect, Write [2, ucast s], ReadSome]\<rparr>)"
proof (induction before arbitrary: c)
  case Nil
  then show ?case by (simp add: List.map_filter_simps sendRequest_def)
next
  case (Cons x before)
  from Cons.prems have rest: "\<forall>y\<in>set before. answers (srv y)" and here: "answers (srv x)"
    by simp_all
  from here obtain data ch' where r: "receiveResponse (srv x) = Inr (data, ch')"
    and d: "data = [] \<or> length data = 17"
    by (auto simp: answers_def split: sum.splits)
  show ?case
  proof (cases "data = []")
    case True
    with r have "response_record (srv x) = None"
      by (simp add: response_record_def parsePacket_Nil)
    with r True show ?thesis
      by (simp add: Cons.IH [OF rest Cons.prems(2)] List.map_filter_simps sendRequest_def)
  next
    case False
    with d have "length data = 17" by simp
    then obtain p where p: "parsePacket data = Some p"
      using parsePacket_17 by blast
    with r have "response_record (srv x) = Some p"
      by (simp add: response_record_def)
    with r False p show ?thesis
      by (simp add: Cons.IH [OF rest Cons.prems(2)] List.map_filter_simps sendRequest_def)
  qed
qed

lemma recoverLoop_trace_grows:
  "\<exists>t. trace (snd (recoverLoop srv ms c)) = trace c @ t"
proof (induction ms arbitrary: c)
  case Nil
  show ?case by simp
next
  case (Cons s ms)
  show ?case
  proof (cases "receiveResponse (srv s)")
    case (Inl f)
    then show ?thesis by simp
  next
    case (Inr r)
    obtain data ch' where r: "r = (data, ch')" by (cases r)
    show ?thesis
    proof (cases "data = []")
      case True
      from Cons.IH [of "c\<lparr>trace := trace c @ [Connect, Write (sendRequest 2 (ucast s)), ReadSome]\<rparr>"]
      show ?thesis using Inr r True by auto
    next
      case False
      show ?thesis
      proof (cases "parsePacket data")
        case None
        then show ?thesis using Inr r False by simp
      next
        case (Some p)
        from Cons.IH [of "c\<lparr>packets := packets c @ [p],
          trace := trace c @ [Connect, Write (sendRequest 2 (ucast s)), ReadSome, Parsed p]\<rparr>"]
        show ?thesis using Inr r False Some by auto
      qed
    qed
  qed
qed

lemma recoverLoop_first_events:
  "\<exists>t. trace (snd (recoverLoop srv (s # ms) c)) = trace c @ [Connect, Write [2, ucast s]] @ t"
proof (cases "receiveResponse (srv s)")
  case (Inl f)
  then show ?thesis by (simp add: sendRequest_def)
next
  case (Inr r)
  obtain data ch' where r: "r = (data, ch')" by (cases r)
  show ?thesis
  proof (cases "data = []")
    case True
    from recoverLoop_trace_grows [of srv ms "c\<lparr>trace := trace c @ [Connect, Write (sendRequest 2 (ucast s)), ReadSome]\<rparr>"]
    show ?thesis using Inr r True by (auto simp: sendRequest_def)
  next
    case False
    show ?thesis
    proof (cases "parsePacket data")
      case None
      then show ?thesis using Inr r False by (simp add: sendRequest_def)
    next
      case (Some p)
      from recoverLoop_trace_grows [of srv ms "c\<lparr>packets := packets c @ [p],
          trace := trace c @ [Connect, Write (sendRequest 2 (ucast s)), ReadSome, Parsed p]\<rparr>"]
      show ?thesis using Inr r False Some by (auto simp: sendRequest_def)
    qed
  qed
qed

lemma recoverLoop_keeps_parsed:
  "packets c = parsed_packets (trace c) \<Longrightarrow>
   packets (snd (recoverLoop srv ms c)) = parsed_packets (trace (snd (recoverLoop srv ms c)))"
proof (induction ms arbitrary: c)
  case Nil
  then show ?case by simp
next
  case (Cons s ms)
  show ?case
  proof (cases "receiveResponse (srv s)")
    case (Inl f)
    then show ?thesis using Cons.prems by (simp add: parsed_packets_append)
  next
    case (Inr r)
    obtain data ch' where r: "r = (data, ch')" by (cases r)
    show ?thesis
    proof (cases "data = []")
      case True
      have "packets (c\<lparr>trace := trace c @ [Connect, Write (sendRequest 2 (ucast s)), ReadSome]\<rparr>)
        = parsed_packets (trace (c\<lparr>trace := trace c @ [Connect, Write (sendRequest 2 (ucast s)), ReadSome]\<rparr>))"
        using Cons.prems by (simp add: parsed_packets_append)
      from Cons.IH [OF this] show ?thesis using Inr r True by simp
    next
      case False
      show ?thesis
      proof (cases "parsePacket data")
        case None
        then show ?thesis using Inr r False Cons.prems by (simp add: parsed_packets_append)
      next
        case (Some p)
        let ?c = "c\<lparr>packets := packets c @ [p],
          trace := trace c @ [Connect, Write (sendRequest 2 (ucast s)), ReadSome, Parsed p]\<rparr>"
        have "packets ?c = parsed_packets (trace ?c)"
          using Cons.prems by (simp add: parsed_packets_append)
        from Cons.IH [OF this] show ?thesis using Inr r False Some by simp
      qed
    qed
  qed
qed

lemma streamLoop_preserves:
  assumes "I c"
    and step: "\<And>c p. I c \<Longrightarrow>
      I (c\<lparr>packets := packets c @ [p],
           receivedSequences := insert (sequence p) (receivedSequences c),
           trace := trace c @ [ReadSome, Parsed p]\<rparr>)"
    and fin: "\<And>c. I c \<Longrightarrow> I (c\<lparr>trace := trace c @ [ReadSome]\<rparr>)"
  shows "I (snd (streamLoop ch c))"
  using assms(1)
proof (induction ch c rule: streamLoop.induct)
  case (1 ch c)
  show ?case
  proof (cases "receiveResponse ch")
    case (Inl f)
    then show ?thesis
      using fin [OF "1.prems"] by (subst streamLoop.simps) simp
  next
    case (Inr r)
    obtain data ch' where r: "r = (data, ch')" by (cases r)
    show ?thesis
    proof (cases "data = []")
      case True
      then show ?thesis
        using Inr r fin [OF "1.prems"] by (subst streamLoop.simps) simp
    next
      case False
      show ?thesis
      proof (cases "parsePacket data")
        case None
        then show ?thesis
          using Inr r False fin [OF "1.prems"] by (subst streamLoop.simps) simp
      next
        case (Some p)
        have "I (snd (streamLoop ch' (c\<lparr>packets := packets c @ [p],
           receivedSequences := insert (sequence p) (receivedSequences c),
           trace := trace c @ [ReadSome, Parsed p]\<rparr>)))"
          using Inr r False Some step [OF "1.prems"]
          by (intro "1.IH" [of r data ch' p]) simp_all
        then show ?thesis
          using Inr r False Some by (subst streamLoop.simps) simp
      qed
    qed
  qed
qed

lemma streamLoop_keeps_parsed:
  "packets c = parsed_packets (trace c) \<Longrightarrow>
   packets (snd (streamLoop ch c)) = parsed_packets (trace (snd (streamLoop ch c)))"
  by (rule streamLoop_preserves [where I = "\<lambda>c. packets c = parsed_packets (trace c)"])
    (simp_all add: parsed_packets_append)

lemma streamLoop_keeps_received:
  "receivedSequences c = set (map sequence (packets c)) \<Longrightarrow>
   receivedSequences (snd (streamLoop ch c)) = set (map sequence (packets (snd (streamLoop ch c))))"
  by (rule streamLoop_preserves
      [where I = "\<lambda>c. receivedSequences c = set (map sequence (packets c))"])
    simp_all

lemma streamLoop_connections:
  "connections (trace (snd (streamLoop ch c))) = connections (trace c)"
  by (rule streamLoop_preserves [where I = "\<lambda>d. connections (trace d) = connections (trace c)"])
    (simp_all add: connections_def)

lemma streamLoop_packets_grow:
  "n \<le> length (packets c) \<Longrightarrow> n \<le> length (packets (snd (streamLoop ch c)))"
  by (rule streamLoop_preserves [where I = "\<lambda>c. n \<le> length (packets c)"]) simp_all

lemma streamLoop_no_packet:
  assumes "streamLoop ch c = (None, c')" and "length (packets c') = length (packets c)"
  shows "c' = c\<lparr>trace := trace c @ [ReadSome]\<rparr>"
proof (cases "receiveResponse ch")
  case (Inl f)
  with assms(1) show ?thesis
    by (subst (asm) streamLoop.simps) simp
next
  case (Inr r)
  obtain data ch' where r: "r = (data, ch')" by (cases r)
  show ?thesis
  proof (cases "data = []")
    case True
    with Inr r assms(1) show ?thesis
      by (subst (asm) streamLoop.simps) simp
  next
    case False
    show ?thesis
    proof (cases "parsePacket data")
      case None
      with Inr r False assms(1) show ?thesis
        by (subst (asm) streamLoop.simps) simp
    next
      case (Some p)
      let ?c = "c\<lparr>packets := packets c @ [p],
           receivedSequences := insert (sequence p) (receivedSequences c),
           trace := trace c @ [ReadSome, Parsed p]\<rparr>"
      from Inr r False Some assms(1) have "streamLoop ch' ?c = (None, c')"
        by (subst (asm) streamLoop.simps) simp
      moreover have "Suc (length (packets c)) \<le> length (packets (snd (streamLoop ch' ?c)))"
        by (rule streamLoop_packets_grow) simp
      ultimately have False
        using assms(2) by simp
      then show ?thesis ..
    qed
  qed
qed

lemma streamLoop_frames:
  assumes "\<forall>f\<in>set fs. length f = 17" and "map parsePacket fs = map Some ps"
  shows "streamLoop (map Bytes fs @ Eof # rest) c =
     (None, c\<lparr>packets := packets c @ ps,
              receivedSequences := receivedSequences c \<union> set (map sequence ps),
              trace := trace c @ concat (map (\<lambda>p. [ReadSome, Parsed p]) ps) @ [ReadSome]\<rparr>)"
  using assms
proof (induction fs arbitrary: ps c)
  case Nil
  then show ?case
    by (subst streamLoop.simps) simp
next
  case (Cons f fs)
  from Cons.prems(2) obtain p ps' where ps: "ps = p # ps'" and p: "parsePacket f = Some p"
    and rest: "map parsePacket fs = map Some ps'"
    by (cases ps) auto
  from Cons.prems(1) have len: "length f = 17" and lens: "\<forall>g\<in>set fs. length g = 17"
    by simp_all
  from len have "f \<noteq> []" by auto
  with len p show ?case
    by (subst streamLoop.simps) (simp add: ps Cons.IH [OF lens rest])
qed

section \<open>Lemmas on the whole run\<close>

lemma strict_detectMissing: "sorted_wrt (<) (detectMissing 1 M S [])"
  using sorted_distinct_detectMissing [of "[]" 1 M S] by (simp add: strict_sorted_iff)

lemma connections_attempts:
  "connections (concat (map (\<lambda>s. [Connect, Write [2, ucast s], ReadSome]
      @ (case f s of None \<Rightarrow> [] | Some p \<Rightarrow> [Parsed p])) ms)) = length ms"
  by (induction ms) (auto simp: connections_def split: option.splits)

lemma connections_connected: "connections (trace connected) = 1"
  by (simp add: connections_def connected_def)

lemma fetchAndSaveData_recovery:
  "streamLoop (primary srv) connected = (None, c1) \<Longrightarrow> packets c1 \<noteq> [] \<Longrightarrow>
   fetchAndSaveData std_sort srv =
     (case recoverLoop (recovery srv) (detectMissing 1 (lastSeq c1) (receivedSequences c1) []) c1 of
        (Some f, c') \<Rightarrow> (Stopped f, c')
      | (None, c') \<Rightarrow>
          (Saved (std_sort sequence_less (packets c')),
           c'\<lparr>packets := std_sort sequence_less (packets c')\<rparr>))"
  by (simp add: fetchAndSaveData_def)

lemma streamLoop_result: "fst (streamLoop ch c) = r \<Longrightarrow> streamLoop ch c = (r, snd (streamLoop ch c))"
  by (cases "streamLoop ch c") simp

lemma parsePacket_Some_length: "parsePacket data = Some p \<Longrightarrow> 17 \<le> length data"
  by (auto simp: parsePacket_def readInt32_def byte_at_def split: if_splits bind_splits)

lemma receiveResponse_length: "receiveResponse ch = Inr (data, ch') \<Longrightarrow> length data \<le> 17"
  by (cases ch rule: receiveResponse.cases) auto

lemma response_record_answers: "response_record ch = Some p \<Longrightarrow> answers ch"
proof -
  assume r: "response_record ch = Some p"
  then obtain data ch' where rr: "receiveResponse ch = Inr (data, ch')" and pp: "parsePacket data = Some p"
    by (auto simp: response_record_def split: sum.splits)
  from parsePacket_Some_length [OF pp] receiveResponse_length [OF rr] have "length data = 17"
    by simp
  with rr show ?thesis
    by (simp add: answers_def)
qed

lemma map_filter_sequence:
  "\<forall>s\<in>set ms. \<exists>p. f s = Some p \<and> sequence p = s \<Longrightarrow> map sequence (List.map_filter f ms) = ms"
  by (induction ms) (auto simp: List.map_filter_simps)

lemma insert_by_sequence: "insert_by sequence_less x ys = insort_key sequence x ys"
  by (induction ys) (auto simp: sequence_less_def)

lemma insertion_sort_sequence: "insertion_sort sequence_less ps = sort_key sequence ps"
proof -
  have "insert_by sequence_less = insort_key sequence"
    by (intro ext) (rule insert_by_sequence)
  then show ?thesis
    by (simp add: insertion_sort_def sort_key_def)
qed

lemma insertion_sort_meets_contract: "sorts_by_sequence insertion_sort"
proof -
  have "sorted_wrt (\<lambda>a b. \<not> sequence_less b a) (sort_key sequence ps)" for ps
    using sorted_sort_key [of sequence ps]
    by (simp add: sorted_map sequence_less_def not_less)
  then show ?thesis
    by (simp add: sorts_by_sequence_def insertion_sort_sequence)
qed

lemma sorted_output:
  assumes "sorts_by_sequence std_sort"
  shows "sorted (map sequence (std_sort sequence_less ps))"
    and "mset (map sequence (std_sort sequence_less ps)) = mset (map sequence ps)"
    and "mset (std_sort sequence_less ps) = mset ps"
proof -
  from assms have "sorted_wrt (\<lambda>a b. \<not> sequence_less b a) (std_sort sequence_less ps)"
    and m: "mset (std_sort sequence_less ps) = mset ps"
    by (simp_all add: sorts_by_sequence_def)
  then show "sorted (map sequence (std_sort sequence_less ps))"
    by (simp add: sorted_map sequence_less_def not_less)
  show "mset (std_sort sequence_less ps) = mset ps"
    by (fact m)
  have "mset (map sequence (std_sort sequence_less ps))
      = image_mset sequence (mset (std_sort sequence_less ps))"
    by simp
  also have "\<dots> = image_mset sequence (mset ps)"
    by (simp only: m)
  finally show "mset (map sequence (std_sort sequence_less ps)) = mset (map sequence ps)"
    by simp
qed

lemma parsePacket_sequence:
  "parsePacket f = Some p \<Longrightarrow> readInt32 f 13 = Some (sequence p)"
  by (auto simp: parsePacket_def split: if_splits bind_splits)

lemma connected_parsed: "packets connected = parsed_packets (trace connected)"
  by (simp add: connected_def)

section \<open>Evaluating the examples\<close>

lemma take_example_frame: "take 17 (example_frame sd n) = example_frame sd n"
  by (simp add: example_frame_def)

lemma length_example_frame: "length (example_frame sd n) = 17"
  by (simp add: example_frame_def)

lemma example_frame_not_Nil: "example_frame sd n \<noteq> []"
  by (simp add: example_frame_def)

lemmas run_simps = fetchAndSaveData_def insertion_sort_sequence connected_def streamLoop.simps
  example_frame_parses take_example_frame example_frame_not_Nil lastSeq_def
  detectMissing.simps set_insert_def sendRequest_def example_packet_def

section \<open>The claims\<close>

text \<open>
  C1. For every set \<open>S\<close> of seen sequence numbers and every last sequence number \<open>M\<close>,
  the missing sequences computed are exactly the \<open>i\<close> with \<open>1 \<le> i < M\<close> that are not
  in \<open>S\<close>; for \<open>S = {1, 2, 4, 5}\<close> and \<open>M = 5\<close> they are \<open>{3}\<close>; and when \<open>S\<close>
  covers \<open>[1, M]\<close> there is none, and the recovery loop leaves the state and the trace as
  they are: it opens no connection.
\<close>

theorem detectMissing_gap_set:
  "set (detectMissing 1 M S []) = {i. 1 \<le> i \<and> i < M \<and> i \<notin> S}
   \<and> detectMissing 1 5 {1, 2, 4, 5} [] = [3]
   \<and> ((\<forall>i. 1 \<le> i \<and> i \<le> M \<longrightarrow> i \<in> S) \<longrightarrow>
         detectMissing 1 M S [] = []
         \<and> recoverLoop srv (detectMissing 1 M S []) c = (None, c))"
proof (intro conjI impI)
  show gaps: "set (detectMissing 1 M S []) = {i. 1 \<le> i \<and> i < M \<and> i \<notin> S}"
    by (simp add: set_detectMissing)
  show "detectMissing 1 5 {1, 2, 4, 5} [] = [3]"
    by (simp add: detectMissing.simps set_insert_def)
  assume covered: "\<forall>i. 1 \<le> i \<and> i \<le> M \<longrightarrow> i \<in> S"
  then have "{i. 1 \<le> i \<and> i < M \<and> i \<notin> S} = {}"
    by (auto simp: less_le)
  with gaps show none: "detectMissing 1 M S [] = []"
    by simp
  show "recoverLoop srv (detectMissing 1 M S []) c = (None, c)"
    by (simp only: none recoverLoop.simps)
qed

text \<open>
  The theorem at \<open>M = 3\<close> and \<open>S = {1, 2, 3}\<close>.
\<close>

theorem detectMissing_gap_set_witness:
  "detectMissing 1 3 {1, 2, 3} [] = []
   \<and> recoverLoop (recovery server_gap) (detectMissing 1 3 {1, 2, 3} []) connected = (None, connected)"
proof -
  have covered: "\<forall>i::u32. 1 \<le> i \<and> i \<le> 3 \<longrightarrow> i \<in> {1, 2, 3}"
    using u32_le_3 by fastforce
  from detectMissing_gap_set [of 3 "{1, 2, 3}" "recovery server_gap" connected] covered
  show ?thesis by blast
qed

text \<open>
  C2, as claimed: a record recovered for a missing sequence is appended to the list and
  to the set of seen sequences. The loop of the source appends to \<^verbatim>\<open>packets\<close> only. The
  server below streams 1, 2, 4, 5 and answers the request for 3: the output holds the
  record, and 3 is not in \<^verbatim>\<open>receivedSequences\<close> at the end.
\<close>

theorem recovery_updates_set_counterexample:
  "fst (fetchAndSaveData insertion_sort server_gap) =
     Saved [example_packet Buy 1, example_packet Sell 2, example_packet Buy 3,
            example_packet Buy 4, example_packet Sell 5]
   \<and> 3 \<notin> receivedSequences (snd (fetchAndSaveData insertion_sort server_gap))"
  by (simp add: run_simps server_gap_def)

text \<open>
  C2, amended. The missing sequences are taken in strictly ascending order. When each of
  their receives returns, empty or with a whole frame, the loop ends without a failure; for
  each missing sequence in turn it connects once, writes the request of call type 2 for it
  and receives once; the records of the non-empty responses are appended to the list in
  that order, an empty response adds nothing, and the set of seen sequences stays as it
  was.
\<close>

theorem recoverLoop_one_attempt_each:
  assumes "\<forall>s\<in>set (detectMissing 1 M S []). answers (srv s)"
  shows "sorted_wrt (<) (detectMissing 1 M S [])
     \<and> (\<exists>c'. recoverLoop srv (detectMissing 1 M S []) c = (None, c')
          \<and> trace c' = trace c @ concat (map (\<lambda>s. [Connect, Write [2, ucast s], ReadSome]
                 @ (case response_record (srv s) of None \<Rightarrow> [] | Some p \<Rightarrow> [Parsed p]))
               (detectMissing 1 M S []))
          \<and> packets c' = packets c
               @ List.map_filter (\<lambda>s. response_record (srv s)) (detectMissing 1 M S [])
          \<and> receivedSequences c' = receivedSequences c)"
  using strict_detectMissing [of M S] recoverLoop_answers [OF assms, of c] by simp

text \<open>
  The theorem at the gap \<open>{3}\<close> of the first example server.
\<close>

theorem recoverLoop_one_attempt_each_witness:
  "detectMissing 1 5 {1, 2, 4, 5} [] = [3]
   \<and> answers (recovery server_gap 3)
   \<and> recoverLoop (recovery server_gap) (detectMissing 1 5 {1, 2, 4, 5} []) connected =
       (None, connected\<lparr>packets := [example_packet Buy 3],
          trace := trace connected @ [Connect, Write [2, 3], ReadSome, Parsed (example_packet Buy 3)]\<rparr>)"
proof -
  have m: "detectMissing 1 5 {1, 2, 4, 5} [] = [3]"
    by (simp add: detectMissing.simps set_insert_def)
  have a: "answers (recovery server_gap 3)"
    by (simp add: answers_def server_gap_def take_example_frame length_example_frame)
  have r: "response_record (recovery server_gap 3) = Some (example_packet Buy 3)"
    by (simp add: response_record_def server_gap_def take_example_frame example_frame_parses)
  from a m have "\<forall>s\<in>set (detectMissing 1 5 {1, 2, 4, 5} []). answers (recovery server_gap s)"
    by simp
  from recoverLoop_one_attempt_each [OF this, of connected] m a r
  show ?thesis
    by (auto simp: List.map_filter_simps connected_def)
qed

text \<open>
  C3, as claimed: decoding fails when the side byte is neither \<open>B\<close> nor \<open>S\<close>. The
  source has no such check: the frame below has the side byte \<open>X\<close> (88) and decodes to a
  record.
\<close>

theorem parsePacket_unknown_side_counterexample:
  "parsePacket (example_frame 88 3) = Some (example_packet 88 3)
   \<and> length (example_frame 88 3) = 17
   \<and> example_frame 88 3 ! 4 \<noteq> Buy \<and> example_frame 88 3 ! 4 \<noteq> Sell"
  by (simp add: example_frame_parses length_example_frame) (simp add: example_frame_def Buy_def Sell_def)

text \<open>
  C3, amended. For every input of 17 bytes the decoder produces a record, whatever byte 4
  is, and the side of the record is that byte.
\<close>

theorem parsePacket_accepts_any_side:
  assumes "length data = 17"
  shows "\<exists>p. parsePacket data = Some p \<and> side p = data ! 4"
  using parsePacket_17 [OF assms] by simp

text \<open>
  The theorem at a frame whose side byte is 0.
\<close>

theorem parsePacket_accepts_any_side_witness:
  "length (example_frame 0 7) = 17
   \<and> (\<exists>p. parsePacket (example_frame 0 7) = Some p \<and> side p = example_frame 0 7 ! 4)"
  using parsePacket_accepts_any_side [of "example_frame 0 7"]
  by (simp add: length_example_frame)

text \<open>
  C4. For every frame of 17 bytes the decoder produces a record whose symbol is bytes 0 to
  3, whose side is byte 4, and whose quantity, price and sequence are the big-endian
  unsigned values of bytes 5 to 8, 9 to 12 and 13 to 16; writing the fields out again in
  that layout gives the frame back.
\<close>

theorem parsePacket_decodes_frame:
  assumes "length data = 17"
  shows "\<exists>p. parsePacket data = Some p
     \<and> symbol p = take 4 data
     \<and> side p = data ! 4
     \<and> unat (quantity p) =
         unat (data ! 5) * 2 ^ 24 + unat (data ! 6) * 2 ^ 16 + unat (data ! 7) * 2 ^ 8 + unat (data ! 8)
     \<and> unat (price p) =
         unat (data ! 9) * 2 ^ 24 + unat (data ! 10) * 2 ^ 16 + unat (data ! 11) * 2 ^ 8 + unat (data ! 12)
     \<and> unat (sequence p) =
         unat (data ! 13) * 2 ^ 24 + unat (data ! 14) * 2 ^ 16 + unat (data ! 15) * 2 ^ 8 + unat (data ! 16)
     \<and> symbol p @ [side p] @ big_endian (quantity p) @ big_endian (price p) @ big_endian (sequence p) = data"
proof -
  let ?p = "\<lparr>symbol = take 4 data, side = data ! 4,
     quantity = push_bit 24 (ucast (data ! 5)) OR push_bit 16 (ucast (data ! 6))
           OR push_bit 8 (ucast (data ! 7)) OR ucast (data ! 8),
     price = push_bit 24 (ucast (data ! 9)) OR push_bit 16 (ucast (data ! 10))
           OR push_bit 8 (ucast (data ! 11)) OR ucast (data ! 12), 
     sequence = push_bit 24 (ucast (data ! 13)) OR push_bit 16 (ucast (data ! 14))
           OR push_bit 8 (ucast (data ! 15)) OR ucast (data ! 16)\<rparr>"
  have parsed: "parsePacket data = Some ?p"
    using assms by (rule parsePacket_17)
  have sy: "symbol ?p = take 4 data" and sd: "side ?p = data ! 4"
    by simp_all
  have q: "unat (quantity ?p) =
      unat (data ! 5) * 2 ^ 24 + unat (data ! 6) * 2 ^ 16 + unat (data ! 7) * 2 ^ 8 + unat (data ! 8)"
    by (simp only: Packet.simps unat_or_bytes)
  have pr: "unat (price ?p) =
      unat (data ! 9) * 2 ^ 24 + unat (data ! 10) * 2 ^ 16 + unat (data ! 11) * 2 ^ 8 + unat (data ! 12)"
    by (simp only: Packet.simps unat_or_bytes)
  have sq: "unat (sequence ?p) =
      unat (data ! 13) * 2 ^ 24 + unat (data ! 14) * 2 ^ 16 + unat (data ! 15) * 2 ^ 8 + unat (data ! 16)"
    by (simp only: Packet.simps unat_or_bytes)
  have again: "symbol ?p @ [side ?p] @ big_endian (quantity ?p) @ big_endian (price ?p)
      @ big_endian (sequence ?p) = data"
    using list17 [OF assms] by (simp only: Packet.simps big_endian_or_bytes)
  show ?thesis
    by (intro exI [of _ ?p] conjI) (fact parsed sy sd q pr sq again)+
qed

text \<open>
  The theorem at a frame with side \<open>S\<close> and sequence number 9.
\<close>

theorem parsePacket_decodes_frame_witness:
  "length (example_frame Sell 9) = 17 \<and>
   (\<exists>p. parsePacket (example_frame Sell 9) = Some p
     \<and> symbol p = [65, 66, 67, 68] \<and> side p = Sell
     \<and> unat (quantity p) = 10 \<and> unat (price p) = 100 \<and> unat (sequence p) = 9
     \<and> symbol p @ [side p] @ big_endian (quantity p) @ big_endian (price p)
         @ big_endian (sequence p) = example_frame Sell 9)"
  using parsePacket_decodes_frame [of "example_frame Sell 9"]
  by (simp add: length_example_frame) (simp add: example_frame_def)

text \<open>
  C5, as claimed: an error in the request for one missing sequence stays with that
  sequence. In the source the error is thrown out of the loop. The server below streams 1
  and 4, fails the receive for 2 and would answer the request for 3: the run stops on the
  exception, nothing is saved, and 3 is never requested.
\<close>

theorem recovery_error_contained_counterexample:
  "fst (fetchAndSaveData insertion_sort server_error) = Stopped Exception
   \<and> trace (snd (fetchAndSaveData insertion_sort server_error)) =
       [Connect, Write [1, 0], ReadSome, Parsed (example_packet Buy 1),
        ReadSome, Parsed (example_packet Sell 4), ReadSome,
        Connect, Write [2, 2], ReadSome]
   \<and> response_record (recovery server_error 3) = Some (example_packet Buy 3)"
  by (simp add: run_simps server_error_def response_record_def)

text \<open>
  C5, amended. When the receive for a missing sequence reports a transport error, the
  exception ends the run: no output is written, and the connections made are the first one,
  one for each missing sequence before the failing one, and the failing one; no missing
  sequence after it is requested.
\<close>

theorem recovery_error_aborts_run:
  assumes "streamLoop (primary srv) connected = (None, c1)" and "packets c1 \<noteq> []"
    and "detectMissing 1 (lastSeq c1) (receivedSequences c1) [] = before @ s # after"
    and "\<forall>x\<in>set before. answers (recovery srv x)"
    and "recovery srv s = Failure # r"
  shows "fst (fetchAndSaveData std_sort srv) = Stopped Exception
     \<and> connections (trace (snd (fetchAndSaveData std_sort srv))) = length before + 2"
proof -
  have "receiveResponse (recovery srv s) = Inl Exception"
    using assms(5) by simp
  note stop = recoverLoop_stops [OF assms(4) this, of after c1]
  have run: "fetchAndSaveData std_sort srv =
      (Stopped Exception,
       c1\<lparr>packets := packets c1 @ List.map_filter (\<lambda>s. response_record (recovery srv s)) before,
          trace := trace c1 @ concat (map (\<lambda>s. [Connect, Write [2, ucast s], ReadSome]
                 @ (case response_record (recovery srv s) of None \<Rightarrow> [] | Some p \<Rightarrow> [Parsed p])) before)
                 @ [Connect, Write [2, ucast s], ReadSome]\<rparr>)"
    by (simp only: fetchAndSaveData_recovery [OF assms(1,2)] assms(3) stop prod.case option.case)
  have one: "connections (trace c1) = 1"
    using streamLoop_connections [of "primary srv" connected] assms(1)
    by (simp add: connections_connected)
  have "trace (snd (fetchAndSaveData std_sort srv)) =
      trace c1 @ concat (map (\<lambda>s. [Connect, Write [2, ucast s], ReadSome]
                 @ (case response_record (recovery srv s) of None \<Rightarrow> [] | Some p \<Rightarrow> [Parsed p])) before)
                 @ [Connect, Write [2, ucast s], ReadSome]"
    by (simp add: run)
  then have "connections (trace (snd (fetchAndSaveData std_sort srv))) = length before + 2"
    by (simp only: connections_append connections_attempts one) (simp add: connections_def)
  with run show ?thesis
    by simp
qed

text \<open>
  The theorem at the second example server.
\<close>

theorem recovery_error_aborts_run_witness:
  "fst (fetchAndSaveData insertion_sort server_error) = Stopped Exception
   \<and> connections (trace (snd (fetchAndSaveData insertion_sort server_error))) = 2"
proof -
  let ?c1 = "snd (streamLoop (primary server_error) connected)"
  have "fst (streamLoop (primary server_error) connected) = None"
    by (simp add: run_simps server_error_def)
  then have 1: "streamLoop (primary server_error) connected = (None, ?c1)"
    by (rule streamLoop_result)
  have 2: "packets ?c1 \<noteq> []"
    by (simp add: run_simps server_error_def)
  have 3: "detectMissing 1 (lastSeq ?c1) (receivedSequences ?c1) [] = [] @ 2 # [3]"
    by (simp add: run_simps server_error_def)
  have 4: "\<forall>x\<in>set []. answers (recovery server_error x)"
    by simp
  have 5: "recovery server_error 2 = Failure # []"
    by (simp add: server_error_def)
  from recovery_error_aborts_run [OF 1 2 3 4 5, of insertion_sort]
  show ?thesis by simp
qed

text \<open>
  C6. For every 32-bit sequence number, the request sent for it is the two bytes 2 and the
  sequence number modulo 256, and these are the bytes that a round of the recovery loop
  writes after connecting; for 259 the bytes are 2 and 3.
\<close>

theorem recovery_request_low_byte:
  "sendRequest 2 (ucast (seq :: u32)) = [2, word_of_nat (unat seq mod 256)]
   \<and> (\<exists>t. trace (snd (recoverLoop srv (seq # rest) c)) =
          trace c @ [Connect, Write [2, word_of_nat (unat seq mod 256)]] @ t)
   \<and> sendRequest 2 (ucast (259 :: u32)) = [2, 3]"
proof (intro conjI)
  show "sendRequest 2 (ucast seq) = [2, word_of_nat (unat seq mod 256)]"
    by (simp only: sendRequest_def ucast_low_byte)
  show "\<exists>t. trace (snd (recoverLoop srv (seq # rest) c)) =
          trace c @ [Connect, Write [2, word_of_nat (unat seq mod 256)]] @ t"
    using recoverLoop_first_events [of srv seq rest c] by (simp only: ucast_low_byte)
  show "sendRequest 2 (ucast (259 :: u32)) = [2, 3]"
    by (simp add: sendRequest_def)
qed

text \<open>
  C7, as claimed: a run that recovers every missing sequence has no duplicate sequence
  number in its output. The server below streams 1, 1, 2: nothing is missing, no recovery
  connection is made, and the output has the sequence number 1 twice.
\<close>

theorem sorted_without_duplicates_counterexample:
  "fst (fetchAndSaveData insertion_sort server_duplicates) =
     Saved [example_packet Buy 1, example_packet Sell 1, example_packet Buy 2]
   \<and> connections (trace (snd (fetchAndSaveData insertion_sort server_duplicates))) = 1
   \<and> \<not> distinct (map sequence [example_packet Buy 1, example_packet Sell 1, example_packet Buy 2])"
  by (simp add: run_simps server_duplicates_def connections_def)

text \<open>
  C7, amended. When the primary stream ends with at least one record and every missing
  sequence is answered with a record of that sequence number, the run saves an output that
  is sorted ascending by sequence number, holds every sequence number from 1 to \<open>M\<close>, is
  a permutation of the records of the primary stream followed by the recovered ones, and
  has no duplicate sequence number exactly when the primary stream had none; this for
  every sort that meets what \<^verbatim>\<open>std::sort\<close> promises for the comparison of the source.
  Which of two records of equal sequence number comes first is not part of the statement.
\<close>

theorem recovered_run_sorted_complete:
  assumes "sorts_by_sequence std_sort"
    and "streamLoop (primary srv) connected = (None, c1)" and "packets c1 \<noteq> []"
    and "\<forall>s\<in>set (detectMissing 1 (lastSeq c1) (receivedSequences c1) []).
           \<exists>p. response_record (recovery srv s) = Some p \<and> sequence p = s"
  shows "\<exists>out. fst (fetchAndSaveData std_sort srv) = Saved out
     \<and> sorted (map sequence out)
     \<and> {i. 1 \<le> i \<and> i \<le> lastSeq c1} \<subseteq> set (map sequence out)
     \<and> mset out = mset (packets c1 @ List.map_filter (\<lambda>s. response_record (recovery srv s))
           (detectMissing 1 (lastSeq c1) (receivedSequences c1) []))
     \<and> (distinct (map sequence out) \<longleftrightarrow> distinct (map sequence (packets c1)))"
proof -
  let ?ms = "detectMissing 1 (lastSeq c1) (receivedSequences c1) []"
  let ?new = "List.map_filter (\<lambda>s. response_record (recovery srv s)) ?ms"
  let ?all = "packets c1 @ ?new"
  have "\<forall>s\<in>set ?ms. answers (recovery srv s)"
    using assms(4) response_record_answers by blast
  note loop = recoverLoop_answers [OF this, of c1]
  have run: "fst (fetchAndSaveData std_sort srv) = Saved (std_sort sequence_less ?all)"
    by (simp add: fetchAndSaveData_recovery [OF assms(2,3)] loop)
  have new: "map sequence ?new = ?ms"
    using assms(4) by (rule map_filter_sequence)
  have "receivedSequences (snd (streamLoop (primary srv) connected))
      = set (map sequence (packets (snd (streamLoop (primary srv) connected))))"
    by (rule streamLoop_keeps_received) (simp add: connected_def)
  then have seen: "receivedSequences c1 = set (map sequence (packets c1))"
    by (simp add: assms(2))
  have gaps: "set ?ms = {j. 1 \<le> j \<and> j < lastSeq c1 \<and> j \<notin> receivedSequences c1}"
    by (simp add: set_detectMissing)
  have seqs: "map sequence ?all = map sequence (packets c1) @ ?ms"
    by (simp only: map_append new)
  have dm: "distinct ?ms"
    using sorted_distinct_detectMissing [of "[]" 1 "lastSeq c1" "receivedSequences c1"] by simp
  have "set (map sequence (packets c1)) \<inter> set ?ms = {}"
    using gaps seen by auto
  with dm have d: "distinct (map sequence ?all) \<longleftrightarrow> distinct (map sequence (packets c1))"
    by (simp only: seqs distinct_append simp_thms)
  have "lastSeq c1 \<in> set (map sequence (packets c1))"
    using assms(3) by (simp add: lastSeq_def)
  moreover have "\<And>i. 1 \<le> i \<Longrightarrow> i < lastSeq c1 \<Longrightarrow>
      i \<in> set (map sequence (packets c1)) \<or> i \<in> set ?ms"
    using gaps seen by auto
  ultimately have cover: "{i. 1 \<le> i \<and> i \<le> lastSeq c1} \<subseteq> set (map sequence ?all)"
    unfolding seqs set_append by (auto simp: le_less)
  note srt = sorted_output [OF assms(1), of ?all]
  from srt(2) have "set (map sequence (std_sort sequence_less ?all)) = set (map sequence ?all)"
    by (rule mset_eq_setD)
  with cover have cover': "{i. 1 \<le> i \<and> i \<le> lastSeq c1}
      \<subseteq> set (map sequence (std_sort sequence_less ?all))"
    by (simp only:)
  from srt(2) have "distinct (map sequence (std_sort sequence_less ?all))
      = distinct (map sequence ?all)"
    by (rule mset_eq_imp_distinct_iff)
  with d have d': "distinct (map sequence (std_sort sequence_less ?all))
      \<longleftrightarrow> distinct (map sequence (packets c1))"
    by (simp only:)
  show ?thesis
    by (intro exI [of _ "std_sort sequence_less ?all"] conjI) (fact run srt(1) cover' srt(3) d')+
qed

text \<open>
  The theorem at the first example server, with the insertion sort: the stream 1, 2, 4, 5
  has no duplicate, and neither has the output once 3 is recovered. And at the server that
  streams 1, 1, 2: the output is sorted and holds 1 and 2, with a duplicate.
\<close>

theorem recovered_run_sorted_complete_witness:
  "(\<exists>out. fst (fetchAndSaveData insertion_sort server_gap) = Saved out
     \<and> sorted (map sequence out)
     \<and> distinct (map sequence out)
     \<and> {i. 1 \<le> i \<and> i \<le> 5} \<subseteq> set (map sequence out))
   \<and> (\<exists>out. fst (fetchAndSaveData insertion_sort server_duplicates) = Saved out
     \<and> sorted (map sequence out)
     \<and> \<not> distinct (map sequence out)
     \<and> {i. 1 \<le> i \<and> i \<le> 2} \<subseteq> set (map sequence out))"
proof (rule conjI)
  let ?c1 = "snd (streamLoop (primary server_gap) connected)"
  have "fst (streamLoop (primary server_gap) connected) = None"
    by (simp add: run_simps server_gap_def)
  then have 1: "streamLoop (primary server_gap) connected = (None, ?c1)"
    by (rule streamLoop_result)
  have 2: "packets ?c1 \<noteq> []"
    by (simp add: run_simps server_gap_def)
  have 3: "distinct (map sequence (packets ?c1))"
    by (simp add: run_simps server_gap_def)
  have 4: "\<forall>s\<in>set (detectMissing 1 (lastSeq ?c1) (receivedSequences ?c1) []).
           \<exists>p. response_record (recovery server_gap s) = Some p \<and> sequence p = s"
    by (simp add: run_simps server_gap_def response_record_def)
  have 5: "lastSeq ?c1 = 5"
    by (simp add: run_simps server_gap_def)
  from recovered_run_sorted_complete [OF insertion_sort_meets_contract 1 2 4]
  show "\<exists>out. fst (fetchAndSaveData insertion_sort server_gap) = Saved out
     \<and> sorted (map sequence out)
     \<and> distinct (map sequence out)
     \<and> {i. 1 \<le> i \<and> i \<le> 5} \<subseteq> set (map sequence out)"
    using 3 by (simp only: 5) blast
next
  let ?c1 = "snd (streamLoop (primary server_duplicates) connected)"
  have "fst (streamLoop (primary server_duplicates) connected) = None"
    by (simp add: run_simps server_duplicates_def)
  then have 1: "streamLoop (primary server_duplicates) connected = (None, ?c1)"
    by (rule streamLoop_result)
  have 2: "packets ?c1 \<noteq> []"
    by (simp add: run_simps server_duplicates_def)
  have 3: "\<not> distinct (map sequence (packets ?c1))"
    by (simp add: run_simps server_duplicates_def)
  have 4: "\<forall>s\<in>set (detectMissing 1 (lastSeq ?c1) (receivedSequences ?c1) []).
           \<exists>p. response_record (recovery server_duplicates s) = Some p \<and> sequence p = s"
    by (simp add: run_simps server_duplicates_def)
  have 5: "lastSeq ?c1 = 2"
    by (simp add: run_simps server_duplicates_def)
  from recovered_run_sorted_complete [OF insertion_sort_meets_contract 1 2 4]
  show "\<exists>out. fst (fetchAndSaveData insertion_sort server_duplicates) = Saved out
     \<and> sorted (map sequence out)
     \<and> \<not> distinct (map sequence out)
     \<and> {i. 1 \<le> i \<and> i \<le> 2} \<subseteq> set (map sequence out)"
    using 3 by (simp only: 5) blast
qed

text \<open>
  C8. When the primary loop ends with no record, the run ends with the outcome that no
  packets were received: nothing is saved, and the trace is the first connection, its
  request and one receive, so no recovery connection is made.
\<close>

theorem no_packets_no_recovery:
  assumes "streamLoop (primary srv) connected = (None, c1)" and "packets c1 = []"
  shows "fetchAndSaveData std_sort srv =
     (NoPacketsReceived, \<lparr>packets = [], receivedSequences = {}, trace = [Connect, Write [1, 0], ReadSome]\<rparr>)"
proof -
  have "length (packets c1) = length (packets connected)"
    using assms(2) by (simp add: connected_def)
  from streamLoop_no_packet [OF assms(1) this]
  have "c1 = connected\<lparr>trace := trace connected @ [ReadSome]\<rparr>" .
  then have "c1 = \<lparr>packets = [], receivedSequences = {}, trace = [Connect, Write [1, 0], ReadSome]\<rparr>"
    by (simp add: connected_def sendRequest_def)
  with assms show ?thesis
    by (simp add: fetchAndSaveData_def)
qed

text \<open>
  The theorem at the server that closes the connection at once.
\<close>

theorem no_packets_no_recovery_witness:
  "streamLoop (primary server_empty) connected =
     (None, \<lparr>packets = [], receivedSequences = {}, trace = [Connect, Write [1, 0], ReadSome]\<rparr>)
   \<and> fetchAndSaveData insertion_sort server_empty =
     (NoPacketsReceived, \<lparr>packets = [], receivedSequences = {}, trace = [Connect, Write [1, 0], ReadSome]\<rparr>)"
proof -
  have s: "streamLoop (primary server_empty) connected =
     (None, \<lparr>packets = [], receivedSequences = {}, trace = [Connect, Write [1, 0], ReadSome]\<rparr>)"
    by (simp add: server_empty_def streamLoop.simps connected_def sendRequest_def)
  from no_packets_no_recovery [OF s, of insertion_sort] s show ?thesis
    by simp
qed

text \<open>
  C9. When the primary stream delivers the whole frames \<open>fs\<close>, then \<open>f\<close>, then closes,
  the primary loop ends with the records of these frames in their order of arrival, and
  \<^verbatim>\<open>lastSeq\<close> is the sequence field of \<open>f\<close>, the last frame received.
\<close>

theorem lastSeq_is_last_received:
  assumes "\<forall>g\<in>set (fs @ [f]). length g = 17"
    and "primary srv = map Bytes (fs @ [f]) @ Eof # rest"
  shows "\<exists>c1. streamLoop (primary srv) connected = (None, c1)
     \<and> map Some (packets c1) = map parsePacket (fs @ [f])
     \<and> parsePacket f = Some (last (packets c1))
     \<and> readInt32 f 13 = Some (lastSeq c1)"
proof -
  let ?ps = "map (\<lambda>g. the (parsePacket g)) (fs @ [f])"
  let ?c1 = "connected\<lparr>packets := packets connected @ ?ps,
       receivedSequences := receivedSequences connected \<union> set (map sequence ?ps),
       trace := trace connected @ concat (map (\<lambda>p. [ReadSome, Parsed p]) ?ps) @ [ReadSome]\<rparr>"
  have each: "\<And>g. g \<in> set (fs @ [f]) \<Longrightarrow> parsePacket g = Some (the (parsePacket g))"
    using assms(1) parsePacket_17 by fastforce
  then have decoded: "map parsePacket (fs @ [f]) = map Some ?ps"
    by (simp only: map_map o_def map_eq_conv) blast
  have loop: "streamLoop (primary srv) connected = (None, ?c1)"
    unfolding assms(2) using assms(1) decoded by (rule streamLoop_frames)
  have pk: "packets ?c1 = ?ps"
    by (simp add: connected_def)
  have lst: "last (packets ?c1) = the (parsePacket f)"
    by (simp add: connected_def)
  have f: "parsePacket f = Some (last (packets ?c1))"
    using each [of f] by (simp only: lst) simp
  have "readInt32 f 13 = Some (lastSeq ?c1)"
    using parsePacket_sequence [OF f] by (simp only: lastSeq_def)
  with loop decoded pk f show ?thesis
    by (intro exI [of _ ?c1]) (simp only: simp_thms)
qed

text \<open>
  The theorem at the server that streams 1, 5, 3: \<^verbatim>\<open>lastSeq\<close> is 3 although 5 was
  received, and the run requests the sequence 2 only.
\<close>

theorem lastSeq_is_last_received_witness:
  "lastSeq (snd (streamLoop (primary server_reordered) connected)) = 3
   \<and> 5 \<in> receivedSequences (snd (streamLoop (primary server_reordered) connected))
   \<and> trace (snd (fetchAndSaveData insertion_sort server_reordered)) =
       [Connect, Write [1, 0], ReadSome, Parsed (example_packet Buy 1),
        ReadSome, Parsed (example_packet Sell 5), ReadSome, Parsed (example_packet Buy 3),
        ReadSome, Connect, Write [2, 2], ReadSome]"
proof -
  have 1: "\<forall>g\<in>set ([example_frame Buy 1, example_frame Sell 5] @ [example_frame Buy 3]). length g = 17"
    by (simp add: length_example_frame)
  have 2: "primary server_reordered =
      map Bytes ([example_frame Buy 1, example_frame Sell 5] @ [example_frame Buy 3]) @ Eof # []"
    by (simp add: server_reordered_def)
  have 3: "readInt32 (example_frame Buy 3) 13 = Some 3"
    by (simp add: readInt32_def byte_at_def example_frame_def)
  from lastSeq_is_last_received [OF 1 2] 3
  have "lastSeq (snd (streamLoop (primary server_reordered) connected)) = 3"
    by auto
  moreover have "5 \<in> receivedSequences (snd (streamLoop (primary server_reordered) connected))"
    by (simp add: run_simps server_reordered_def)
  moreover have "trace (snd (fetchAndSaveData insertion_sort server_reordered)) =
       [Connect, Write [1, 0], ReadSome, Parsed (example_packet Buy 1),
        ReadSome, Parsed (example_packet Sell 5), ReadSome, Parsed (example_packet Buy 3),
        ReadSome, Connect, Write [2, 2], ReadSome]"
    by (simp add: run_simps server_reordered_def)
  ultimately show ?thesis
    by (simp only: simp_thms)
qed

text \<open>
  C10. For every run that saves an output, the output holds exactly the packets parsed in
  the two phases, each as many times as it was parsed, so its length is the number of
  frames decoded; a sequence number seen before does not keep a record out.
\<close>

theorem output_is_every_parsed_packet:
  assumes "sorts_by_sequence std_sort" and "fetchAndSaveData std_sort srv = (Saved out, c)"
  shows "mset out = mset (parsed_packets (trace c))
     \<and> length out = length (parsed_packets (trace c))"
proof -
  obtain r1 c1 where s: "streamLoop (primary srv) connected = (r1, c1)"
    by (cases "streamLoop (primary srv) connected")
  have i1: "packets c1 = parsed_packets (trace c1)"
    using streamLoop_keeps_parsed [OF connected_parsed, of "primary srv"] by (simp add: s)
  obtain r2 c2 where r: "recoverLoop (recovery srv)
      (detectMissing 1 (lastSeq c1) (receivedSequences c1) []) c1 = (r2, c2)"
    by (cases "recoverLoop (recovery srv) (detectMissing 1 (lastSeq c1) (receivedSequences c1) []) c1")
  have i2: "packets c2 = parsed_packets (trace c2)"
    using recoverLoop_keeps_parsed [OF i1, of "recovery srv"
        "detectMissing 1 (lastSeq c1) (receivedSequences c1) []"]
    by (simp add: r)
  from assms(2) have "out = std_sort sequence_less (packets c2) \<and> trace c = trace c2"
    by (auto simp: fetchAndSaveData_def s r split: option.splits if_splits)
  with i2 sorted_output(3) [OF assms(1), of "packets c2"]
  have m: "mset out = mset (parsed_packets (trace c))"
    by simp
  then have "length out = length (parsed_packets (trace c))"
    by (rule mset_eq_length)
  with m show ?thesis
    by simp
qed

text \<open>
  The theorem at the server that streams 1, 1, 2: three frames are decoded and the three
  records are saved, the two with sequence number 1 among them.
\<close>

theorem output_is_every_parsed_packet_witness:
  "fetchAndSaveData insertion_sort server_duplicates =
     (Saved [example_packet Buy 1, example_packet Sell 1, example_packet Buy 2],
      snd (fetchAndSaveData insertion_sort server_duplicates))
   \<and> mset [example_packet Buy 1, example_packet Sell 1, example_packet Buy 2] =
       mset (parsed_packets (trace (snd (fetchAndSaveData insertion_sort server_duplicates))))
   \<and> length (parsed_packets (trace (snd (fetchAndSaveData insertion_sort server_duplicates)))) = 3"
proof -
  have "fst (fetchAndSaveData insertion_sort server_duplicates) =
      Saved [example_packet Buy 1, example_packet Sell 1, example_packet Buy 2]"
    by (simp add: run_simps server_duplicates_def)
  then have run: "fetchAndSaveData insertion_sort server_duplicates =
     (Saved [example_packet Buy 1, example_packet Sell 1, example_packet Buy 2],
      snd (fetchAndSaveData insertion_sort server_duplicates))"
    by (cases "fetchAndSaveData insertion_sort server_duplicates") simp
  from output_is_every_parsed_packet [OF insertion_sort_meets_contract run] run
  show ?thesis by simp
qed

end
